theory Spec2Isabelle
  imports Main "HOL-Library.Sublist"
begin

section \<open>Data model\<close>

text \<open>
  A Python \<open>str\<close> is a sequence of Unicode code points, and \<open>len\<close>, indexing and
  \<open>str.find\<close> count code points. An Isabelle \<open>char\<close> is a byte, so a Python string is
  modelled as the list of its code points. \<open>py\<close> embeds an ASCII literal.
\<close>

type_synonym codepoint = nat
type_synonym pystr = "codepoint list"

definition py :: "string \<Rightarrow> pystr" where
  "py s = map of_char s"

text \<open>
  The JSON documents of \<open>clean_translations.py\<close>, typed by the SQuAD layout the code
  reads. A key read with \<open>d[k]\<close> is a field, so a document that lacks such a key (a
  \<open>KeyError\<close> in Python) is not a value of these types; a key read with
  \<open>d.get(k, default)\<close> is an optional field; \<open>qa['answers']\<close> is a list that may be
  empty, and \<open>qa['answers'][0]\<close> on the empty list raises \<open>IndexError\<close>. The keys \<open>id\<close>,
  \<open>text\<close> and \<open>context\<close> are the fields \<open>qa_id\<close>, \<open>answer_text\<close> and \<open>para_context\<close>; the
  keys of an error report carry the prefix \<open>report_\<close>. The cleaned dataset has the same
  shape as the input, with \<open>version\<close> and \<open>answer_start\<close> always present.
\<close>

datatype py_error = IndexError | KeyError

record answer =
  answer_text :: pystr
  answer_start :: "int option"

record qa =
  qa_id :: pystr
  question :: pystr
  answers :: "answer list"

record para =
  para_context :: pystr
  qas :: "qa list"

record article =
  title :: pystr
  paragraphs :: "para list"

record dataset =
  version :: "pystr option"
  data :: "article list"

text \<open>The dictionary built by \<open>verify_and_correct_example\<close>; the two corrected positions
  are keys that exist only in a valid result.\<close>

record verification =
  v_text :: pystr
  original_start :: int
  is_valid :: bool
  v_error :: "pystr option"
  corrected_start :: "int option"
  corrected_end :: "int option"

record error_report =
  report_id :: pystr
  report_question :: pystr
  report_context :: pystr
  report_answer :: answer
  report_error :: "pystr option"

section \<open>The span locator\<close>

text \<open>Python's built-in \<open>s.find(sub)\<close>: the lowest index at which \<open>sub\<close> starts in
  \<open>s\<close>, and \<open>-1\<close> when there is none. \<open>find_from i\<close> scans a suffix that starts at
  index \<open>i\<close>.\<close>

fun find_from :: "nat \<Rightarrow> pystr \<Rightarrow> pystr \<Rightarrow> int" where
  "find_from i [] sub = (if sub = [] then int i else - 1)"
| "find_from i (c # cs) sub =
     (if prefix sub (c # cs) then int i else find_from (Suc i) cs sub)"

definition str_find :: "pystr \<Rightarrow> pystr \<Rightarrow> int" where
  "str_find s sub = find_from 0 s sub"

definition find_answer_span :: "pystr \<Rightarrow> pystr \<Rightarrow> (int \<times> int) option" where
  "find_answer_span ctx answer =
     (let start_idx = str_find ctx answer
      in if start_idx = - 1 then None
         else Some (start_idx, start_idx + int (length answer)))"

definition verify_and_correct_example :: "pystr \<Rightarrow> answer \<Rightarrow> verification" where
  "verify_and_correct_example ctx answer =
     (let txt = answer_text answer;
          span = find_answer_span ctx txt;
          result = \<lparr>v_text = txt,
                    original_start = (case answer_start answer of None \<Rightarrow> - 1 | Some s \<Rightarrow> s),
                    is_valid = False,
                    v_error = None,
                    corrected_start = None,
                    corrected_end = None\<rparr>
      in case span of
           None \<Rightarrow> result\<lparr>v_error := Some (py ''Answer text not found in context'')\<rparr>
         | Some sp \<Rightarrow> result\<lparr>is_valid := True,
                               corrected_start := Some (fst sp),
                               corrected_end := Some (snd sp)\<rparr>)"

section \<open>The script filter\<close>

text \<open>\<open>re.search(r'[a-zA-Z]', text)\<close> scans \<open>text\<close> from the left for the first character
  of the class and returns the match (here: its position) or \<open>None\<close>; \<open>bool\<close> of a match
  object is true and of \<open>None\<close> is false.\<close>

definition latin_letter :: "codepoint \<Rightarrow> bool" where
  "latin_letter c = ((97 \<le> c \<and> c \<le> 122) \<or> (65 \<le> c \<and> c \<le> 90))"

fun re_search :: "(codepoint \<Rightarrow> bool) \<Rightarrow> pystr \<Rightarrow> nat option" where
  "re_search cls [] = None"
| "re_search cls (c # cs) =
     (if cls c then Some 0 else map_option Suc (re_search cls cs))"

definition contains_english :: "pystr \<Rightarrow> bool" where
  "contains_english txt = (re_search latin_letter txt \<noteq> None)"

section \<open>The pipeline\<close>

text \<open>The three nested \<open>for\<close> loops of \<open>clean_squad_dataset\<close>, innermost first. Each
  carries the list it appends to and the shared \<open>error_reports\<close>; an exception ends all
  of them.\<close>

fun qas_loop ::
  "pystr \<Rightarrow> qa list \<Rightarrow> qa list \<times> error_report list
     \<Rightarrow> py_error + (qa list \<times> error_report list)" where
  "qas_loop ctx [] st = Inr st"
| "qas_loop ctx (q # rest) (cleaned_qas, error_reports) =
     (case answers q of
        [] \<Rightarrow> Inl IndexError
      | answer # _ \<Rightarrow>
          if contains_english (question q) \<or> contains_english (answer_text answer)
          then qas_loop ctx rest
                 (cleaned_qas,
                  error_reports @
                    [\<lparr>report_id = qa_id q, report_question = question q,
                      report_context = ctx, report_answer = answer,
                      report_error = Some (py ''Contains English characters'')\<rparr>])
          else
            let verification = verify_and_correct_example ctx answer
            in if is_valid verification
               then (case corrected_start verification of
                       None \<Rightarrow> Inl KeyError
                     | Some s \<Rightarrow>
                         qas_loop ctx rest
                           (cleaned_qas @
                              [\<lparr>qa_id = qa_id q, question = question q,
                                answers = [\<lparr>answer_text = v_text verification,
                                            answer_start = Some s\<rparr>]\<rparr>],
                            error_reports))
               else qas_loop ctx rest
                      (cleaned_qas,
                       error_reports @
                         [\<lparr>report_id = qa_id q, report_question = question q,
                           report_context = ctx, report_answer = answer,
                           report_error = v_error verification\<rparr>]))"

fun paragraphs_loop ::
  "para list \<Rightarrow> para list \<times> error_report list
     \<Rightarrow> py_error + (para list \<times> error_report list)" where
  "paragraphs_loop [] st = Inr st"
| "paragraphs_loop (p # rest) (cleaned_paragraphs, error_reports) =
     (case qas_loop (para_context p) (qas p) ([], error_reports) of
        Inl e \<Rightarrow> Inl e
      | Inr (cleaned_qas, error_reports') \<Rightarrow>
          paragraphs_loop rest
            (if cleaned_qas \<noteq> []
             then cleaned_paragraphs @
                    [\<lparr>para_context = para_context p, qas = cleaned_qas\<rparr>]
             else cleaned_paragraphs,
             error_reports'))"

fun articles_loop ::
  "article list \<Rightarrow> article list \<times> error_report list
     \<Rightarrow> py_error + (article list \<times> error_report list)" where
  "articles_loop [] st = Inr st"
| "articles_loop (art # rest) (cleaned_articles, error_reports) =
     (case paragraphs_loop (paragraphs art) ([], error_reports) of
        Inl e \<Rightarrow> Inl e
      | Inr (cleaned_paragraphs, error_reports') \<Rightarrow>
          articles_loop rest
            (if cleaned_paragraphs \<noteq> []
             then cleaned_articles @
                    [\<lparr>title = title art, paragraphs = cleaned_paragraphs\<rparr>]
             else cleaned_articles,
             error_reports'))"

definition clean_squad_dataset ::
  "dataset \<Rightarrow> py_error + (dataset \<times> error_report list)" where
  "clean_squad_dataset d =
     (case articles_loop (data d) ([], []) of
        Inl e \<Rightarrow> Inl e
      | Inr (cleaned_articles, error_reports) \<Rightarrow>
          Inr (\<lparr>version = Some (case version d of None \<Rightarrow> py ''1.1'' | Some v \<Rightarrow> v),
                data = cleaned_articles\<rparr>,
               error_reports))"

text \<open>The summary count of the script's main block:
  \<open>sum(len(p['qas']) for a in data['data'] for p in a['paragraphs'])\<close>.\<close>

definition total_qas :: "dataset \<Rightarrow> nat" where
  "total_qas d =
     sum_list (concat (map (\<lambda>a. map (\<lambda>p. length (qas p)) (paragraphs a)) (data d)))"

section \<open>Vocabulary of the specification\<close>

text \<open>\<open>occurs_at ctx sub j\<close>: the text \<open>sub\<close> occurs in \<open>ctx\<close> starting at character
  index \<open>j\<close>.\<close>

definition occurs_at :: "pystr \<Rightarrow> pystr \<Rightarrow> nat \<Rightarrow> bool" where
  "occurs_at ctx sub j = (j \<le> length ctx \<and> prefix sub (drop j ctx))"

text \<open>The single-answer assumption of SQuAD 1.1 that \<open>qa['answers'][0]\<close> relies on.\<close>

definition every_qa_has_answer :: "dataset \<Rightarrow> bool" where
  "every_qa_has_answer d =
     (\<forall>a\<in>set (data d). \<forall>p\<in>set (paragraphs a). \<forall>q\<in>set (qas p). answers q \<noteq> [])"

text \<open>
  The pipeline as section 4.3 of the specification words it, as a stable filter: a QA
  pair is admitted when the script filter passes its question and its first answer text
  and the validator finds the answer text in the context; an admitted pair is emitted
  with the corrected start, and every other pair yields one error report.
\<close>

definition spec_admitted :: "pystr \<Rightarrow> qa \<Rightarrow> bool" where
  "spec_admitted ctx q =
     (case answers q of
        [] \<Rightarrow> False
      | a # _ \<Rightarrow> \<not> contains_english (question q) \<and> \<not> contains_english (answer_text a)
                 \<and> find_answer_span ctx (answer_text a) \<noteq> None)"

definition spec_cleaned_qa :: "pystr \<Rightarrow> qa \<Rightarrow> qa" where
  "spec_cleaned_qa ctx q =
     \<lparr>qa_id = qa_id q, question = question q,
      answers = (case answers q of
                   [] \<Rightarrow> []
                 | a # _ \<Rightarrow> [\<lparr>answer_text = answer_text a,
                               answer_start = Some (str_find ctx (answer_text a))\<rparr>])\<rparr>"

definition spec_report :: "pystr \<Rightarrow> qa \<Rightarrow> error_report list" where
  "spec_report ctx q =
     (case answers q of
        [] \<Rightarrow> []
      | a # _ \<Rightarrow>
          [\<lparr>report_id = qa_id q, report_question = question q, report_context = ctx,
            report_answer = a,
            report_error =
              Some (if contains_english (question q) \<or> contains_english (answer_text a)
                    then py ''Contains English characters''
                    else py ''Answer text not found in context'')\<rparr>])"

definition spec_surviving_qas :: "pystr \<Rightarrow> qa list \<Rightarrow> qa list" where
  "spec_surviving_qas ctx qs = map (spec_cleaned_qa ctx) (filter (spec_admitted ctx) qs)"

definition spec_reports_qas :: "pystr \<Rightarrow> qa list \<Rightarrow> error_report list" where
  "spec_reports_qas ctx qs =
     concat (map (spec_report ctx) (filter (\<lambda>q. \<not> spec_admitted ctx q) qs))"

definition spec_cleaned_para :: "para \<Rightarrow> para" where
  "spec_cleaned_para p =
     \<lparr>para_context = para_context p, qas = spec_surviving_qas (para_context p) (qas p)\<rparr>"

definition spec_surviving_paragraphs :: "para list \<Rightarrow> para list" where
  "spec_surviving_paragraphs ps = filter (\<lambda>p. qas p \<noteq> []) (map spec_cleaned_para ps)"

definition spec_reports_paragraphs :: "para list \<Rightarrow> error_report list" where
  "spec_reports_paragraphs ps =
     concat (map (\<lambda>p. spec_reports_qas (para_context p) (qas p)) ps)"

definition spec_cleaned_article :: "article \<Rightarrow> article" where
  "spec_cleaned_article a =
     \<lparr>title = title a, paragraphs = spec_surviving_paragraphs (paragraphs a)\<rparr>"

definition spec_surviving_articles :: "article list \<Rightarrow> article list" where
  "spec_surviving_articles as = filter (\<lambda>a. paragraphs a \<noteq> []) (map spec_cleaned_article as)"

definition spec_reports_articles :: "article list \<Rightarrow> error_report list" where
  "spec_reports_articles as = concat (map (\<lambda>a. spec_reports_paragraphs (paragraphs a)) as)"

text \<open>
  What it means for a cleaned element to stem from an input element: a cleaned QA pair
  keeps the id and the question of its source and the text of its first answer, a cleaned
  paragraph keeps the context and holds cleaned QA pairs of its source in their order, and
  likewise for articles. \<open>list_emb R xs ys\<close> embeds \<open>xs\<close> into \<open>ys\<close> in order.
\<close>

definition qa_kept :: "qa \<Rightarrow> qa \<Rightarrow> bool" where
  "qa_kept cq q =
     (qa_id cq = qa_id q \<and> question cq = question q
      \<and> map answer_text (answers cq) = map answer_text (take 1 (answers q)))"

definition para_kept :: "para \<Rightarrow> para \<Rightarrow> bool" where
  "para_kept cp p =
     (para_context cp = para_context p \<and> list_emb qa_kept (qas cp) (qas p))"

definition article_kept :: "article \<Rightarrow> article \<Rightarrow> bool" where
  "article_kept ca a =
     (title ca = title a \<and> list_emb para_kept (paragraphs ca) (paragraphs a))"

section \<open>A sample run\<close>

text \<open>
  Two articles over Greek text. In the first paragraph the context is
  \<open>\<alpha>\<beta>\<gamma>\<delta>\<epsilon>\<gamma>\<delta>\<close>: \<open>q1\<close> asks for \<open>\<gamma>\<delta>\<close> with the stale offset 99, \<open>q2\<close> asks for
  \<open>\<zeta>\<close>, which the context lacks, and \<open>q3\<close> has a question in Latin letters. The second
  paragraph and the second article hold no pair that survives.
\<close>

definition ex_context :: pystr where
  "ex_context = [945, 946, 947, 948, 949, 947, 948]"

definition ex_a1 :: answer where
  "ex_a1 = \<lparr>answer_text = [947, 948], answer_start = Some 99\<rparr>"

definition ex_a2 :: answer where
  "ex_a2 = \<lparr>answer_text = [950], answer_start = Some 0\<rparr>"

definition ex_a3 :: answer where
  "ex_a3 = \<lparr>answer_text = [945], answer_start = Some 0\<rparr>"

definition ex_a4 :: answer where
  "ex_a4 = \<lparr>answer_text = [946], answer_start = None\<rparr>"

definition ex_a5 :: answer where
  "ex_a5 = \<lparr>answer_text = py ''Rome'', answer_start = Some 3\<rparr>"

definition ex_q1 :: qa where
  "ex_q1 = \<lparr>qa_id = py ''q1'', question = [963, 964], answers = [ex_a1]\<rparr>"

definition ex_q2 :: qa where
  "ex_q2 = \<lparr>qa_id = py ''q2'', question = [963], answers = [ex_a2]\<rparr>"

definition ex_q3 :: qa where
  "ex_q3 = \<lparr>qa_id = py ''q3'', question = py ''why'', answers = [ex_a3]\<rparr>"

definition ex_q4 :: qa where
  "ex_q4 = \<lparr>qa_id = py ''q4'', question = [964], answers = [ex_a4]\<rparr>"

definition ex_q5 :: qa where
  "ex_q5 = \<lparr>qa_id = py ''q5'', question = [964], answers = [ex_a5]\<rparr>"

definition ex_p1 :: para where
  "ex_p1 = \<lparr>para_context = ex_context, qas = [ex_q1, ex_q2, ex_q3]\<rparr>"

definition ex_p2 :: para where
  "ex_p2 = \<lparr>para_context = [945], qas = [ex_q4]\<rparr>"

definition ex_p3 :: para where
  "ex_p3 = \<lparr>para_context = [945, 946], qas = [ex_q5]\<rparr>"

definition ex_data :: dataset where
  "ex_data =
     \<lparr>version = None,
      data = [\<lparr>title = py ''T1'', paragraphs = [ex_p1, ex_p2]\<rparr>,
                  \<lparr>title = py ''T2'', paragraphs = [ex_p3]\<rparr>]\<rparr>"

definition ex_cleaned_q1 :: qa where
  "ex_cleaned_q1 = \<lparr>qa_id = py ''q1'', question = [963, 964],
                    answers = [\<lparr>answer_text = [947, 948], answer_start = Some 2\<rparr>]\<rparr>"

definition ex_cleaned :: dataset where
  "ex_cleaned =
     \<lparr>version = Some (py ''1.1''),
      data = [\<lparr>title = py ''T1'',
                   paragraphs = [\<lparr>para_context = ex_context, qas = [ex_cleaned_q1]\<rparr>]\<rparr>]\<rparr>"

definition ex_report :: "qa \<Rightarrow> answer \<Rightarrow> pystr \<Rightarrow> string \<Rightarrow> error_report" where
  "ex_report q a ctx msg =
     \<lparr>report_id = qa_id q, report_question = question q, report_context = ctx,
      report_answer = a, report_error = Some (py msg)\<rparr>"

definition ex_errors :: "error_report list" where
  "ex_errors =
     [ex_report ex_q2 ex_a2 ex_context ''Answer text not found in context'',
      ex_report ex_q3 ex_a3 ex_context ''Contains English characters'',
      ex_report ex_q4 ex_a4 [945] ''Answer text not found in context'',
      ex_report ex_q5 ex_a5 [945, 946] ''Contains English characters'']"

section \<open>Facts about the span locator\<close>

lemma find_from_found:
  "find_from i s sub \<noteq> - 1 \<Longrightarrow>
     \<exists>k. find_from i s sub = int (i + k) \<and> occurs_at s sub k \<and> (\<forall>j<k. \<not> occurs_at s sub j)"
proof (induction s arbitrary: i)
  case Nil
  then show ?case by (auto simp: occurs_at_def split: if_splits)
next
  case (Cons c cs)
  show ?case
  proof (cases "prefix sub (c # cs)")
    case True
    then show ?thesis by (auto simp: occurs_at_def intro!: exI[of _ 0])
  next
    case False
    with Cons.prems have "find_from (Suc i) cs sub \<noteq> - 1" by simp
    from Cons.IH[OF this] obtain k where k: "find_from (Suc i) cs sub = int (Suc i + k)"
      "occurs_at cs sub k" "\<forall>j<k. \<not> occurs_at cs sub j" by blast
    have "\<forall>j<Suc k. \<not> occurs_at (c # cs) sub j"
    proof (intro allI impI)
      fix j assume "j < Suc k"
      show "\<not> occurs_at (c # cs) sub j"
      proof (cases j)
        case 0 with False show ?thesis by (simp add: occurs_at_def)
      next
        case (Suc j') with \<open>j < Suc k\<close> k(3) show ?thesis by (simp add: occurs_at_def)
      qed
    qed
    moreover have "occurs_at (c # cs) sub (Suc k)" using k(2) by (simp add: occurs_at_def)
    moreover have "find_from i (c # cs) sub = int (i + Suc k)" using False k(1) by simp
    ultimately show ?thesis by blast
  qed
qed

lemma find_from_missing:
  "find_from i s sub = - 1 \<Longrightarrow> \<not> occurs_at s sub j"
proof (induction s arbitrary: i j)
  case Nil
  then show ?case by (auto simp: occurs_at_def split: if_splits)
next
  case (Cons c cs)
  from Cons.prems have np: "\<not> prefix sub (c # cs)" and r: "find_from (Suc i) cs sub = - 1"
    by (auto split: if_splits)
  show ?case
  proof (cases j)
    case 0 with np show ?thesis by (simp add: occurs_at_def)
  next
    case (Suc j') with Cons.IH[OF r, of j'] show ?thesis by (simp add: occurs_at_def)
  qed
qed

lemma occurs_at_sublist: "(\<exists>j. occurs_at s sub j) \<longleftrightarrow> sublist sub s"
proof
  assume "\<exists>j. occurs_at s sub j"
  then obtain j where "j \<le> length s" "prefix sub (drop j s)" by (auto simp: occurs_at_def)
  then obtain ss where "drop j s = sub @ ss" by (auto simp: prefix_def)
  then have "s = take j s @ sub @ ss" by (metis append_take_drop_id)
  then show "sublist sub s" unfolding sublist_def by blast
next
  assume "sublist sub s"
  then obtain ps ss where "s = ps @ sub @ ss" unfolding sublist_def by blast
  then have "occurs_at s sub (length ps)" by (simp add: occurs_at_def)
  then show "\<exists>j. occurs_at s sub j" ..
qed

lemma occurs_at_split:
  "occurs_at s sub k \<Longrightarrow> \<exists>post. s = take k s @ sub @ post \<and> length (take k s) = k"
proof -
  assume "occurs_at s sub k"
  then have k: "k \<le> length s" and "prefix sub (drop k s)" by (simp_all add: occurs_at_def)
  then obtain post where "drop k s = sub @ post" by (auto simp: prefix_def)
  then have "s = take k s @ sub @ post" by (metis append_take_drop_id)
  with k show ?thesis by auto
qed

lemma find_answer_span_Some:
  "find_answer_span c a = Some (s, e) \<Longrightarrow>
     \<exists>k. s = int k \<and> e = int k + int (length a) \<and> occurs_at c a k
         \<and> (\<forall>j<k. \<not> occurs_at c a j)"
proof -
  assume h: "find_answer_span c a = Some (s, e)"
  then have ne: "find_from 0 c a \<noteq> - 1" and s: "s = find_from 0 c a"
    and e: "e = s + int (length a)"
    by (auto simp: find_answer_span_def str_find_def Let_def split: if_splits)
  from find_from_found[OF ne] s e show ?thesis by auto
qed

lemma find_answer_span_None:
  "find_answer_span c a = None \<longleftrightarrow> (\<forall>j. \<not> occurs_at c a j)"
proof
  assume "find_answer_span c a = None"
  then have "find_from 0 c a = - 1"
    by (auto simp: find_answer_span_def str_find_def Let_def split: if_splits)
  then show "\<forall>j. \<not> occurs_at c a j" by (blast dest: find_from_missing)
next
  assume no: "\<forall>j. \<not> occurs_at c a j"
  show "find_answer_span c a = None"
  proof (cases "find_answer_span c a")
    case None
    then show ?thesis .
  next
    case (Some sp)
    then have "find_answer_span c a = Some (fst sp, snd sp)" by simp
    from find_answer_span_Some[OF this] no show ?thesis by blast
  qed
qed

section \<open>The loops as stable filters\<close>

lemma verify_fields:
  "is_valid (verify_and_correct_example ctx a) = (find_answer_span ctx (answer_text a) \<noteq> None)"
  "v_text (verify_and_correct_example ctx a) = answer_text a"
  "corrected_start (verify_and_correct_example ctx a) =
     map_option fst (find_answer_span ctx (answer_text a))"
  "v_error (verify_and_correct_example ctx a) =
     (if find_answer_span ctx (answer_text a) = None
      then Some (py ''Answer text not found in context'') else None)"
  by (simp_all add: verify_and_correct_example_def Let_def split: option.splits)

lemma find_answer_span_fst:
  "find_answer_span ctx t = Some sp \<Longrightarrow> fst sp = str_find ctx t"
  by (auto simp: find_answer_span_def Let_def split: if_splits)

lemma qas_loop_spec:
  "\<forall>q\<in>set qs. answers q \<noteq> [] \<Longrightarrow>
   qas_loop ctx qs (c, e) = Inr (c @ spec_surviving_qas ctx qs, e @ spec_reports_qas ctx qs)"
proof (induction qs arbitrary: c e)
  case Nil
  then show ?case by (simp add: spec_surviving_qas_def spec_reports_qas_def)
next
  case (Cons q qs)
  then obtain a as where a: "answers q = a # as" and rest: "\<forall>q\<in>set qs. answers q \<noteq> []"
    by (cases "answers q") auto
  note IH = Cons.IH[OF rest]
  show ?case
  proof (cases "contains_english (question q) \<or> contains_english (answer_text a)")
    case True
    then have "\<not> spec_admitted ctx q" by (auto simp: spec_admitted_def a)
    with True show ?thesis
      by (simp add: a IH spec_surviving_qas_def spec_reports_qas_def spec_report_def)
  next
    case False
    show ?thesis
    proof (cases "find_answer_span ctx (answer_text a)")
      case None
      then have "\<not> spec_admitted ctx q" by (simp add: spec_admitted_def a)
      with False None show ?thesis
        by (simp add: a IH spec_surviving_qas_def spec_reports_qas_def spec_report_def
              verify_fields Let_def)
    next
      case (Some sp)
      then have adm: "spec_admitted ctx q" using False by (simp add: spec_admitted_def a)
      from Some have "fst sp = str_find ctx (answer_text a)"
        by (rule find_answer_span_fst)
      with False Some adm show ?thesis
        by (simp add: a IH spec_surviving_qas_def spec_reports_qas_def spec_cleaned_qa_def
              verify_fields Let_def)
    qed
  qed
qed

lemma qas_loop_raises:
  "\<not> (\<forall>q\<in>set qs. answers q \<noteq> []) \<Longrightarrow> qas_loop ctx qs (c, e) = Inl IndexError"
proof (induction qs arbitrary: c e)
  case Nil
  then show ?case by simp
next
  case (Cons q qs)
  show ?case
  proof (cases "answers q")
    case Nil
    then show ?thesis by simp
  next
    case (Cons a as)
    with Cons.prems have "\<not> (\<forall>q\<in>set qs. answers q \<noteq> [])" by simp
    note IH = Cons.IH[OF this]
    show ?thesis
      by (simp add: Cons IH verify_fields Let_def split: option.splits)
  qed
qed

lemma paragraphs_loop_spec:
  "\<forall>p\<in>set ps. \<forall>q\<in>set (qas p). answers q \<noteq> [] \<Longrightarrow>
   paragraphs_loop ps (c, e) =
     Inr (c @ spec_surviving_paragraphs ps, e @ spec_reports_paragraphs ps)"
proof (induction ps arbitrary: c e)
  case Nil
  then show ?case by (simp add: spec_surviving_paragraphs_def spec_reports_paragraphs_def)
next
  case (Cons p ps)
  then have hd: "\<forall>q\<in>set (qas p). answers q \<noteq> []"
    and tl: "\<forall>p\<in>set ps. \<forall>q\<in>set (qas p). answers q \<noteq> []" by simp_all
  show ?case
    by (simp add: qas_loop_spec[OF hd] Cons.IH[OF tl] spec_surviving_paragraphs_def
          spec_reports_paragraphs_def spec_cleaned_para_def)
qed

lemma paragraphs_loop_raises:
  "\<not> (\<forall>p\<in>set ps. \<forall>q\<in>set (qas p). answers q \<noteq> []) \<Longrightarrow>
   paragraphs_loop ps (c, e) = Inl IndexError"
proof (induction ps arbitrary: c e)
  case Nil
  then show ?case by simp
next
  case (Cons p ps)
  show ?case
  proof (cases "\<forall>q\<in>set (qas p). answers q \<noteq> []")
    case True
    with Cons.prems have "\<not> (\<forall>p\<in>set ps. \<forall>q\<in>set (qas p). answers q \<noteq> [])" by simp
    then show ?thesis by (simp add: qas_loop_spec[OF True] Cons.IH)
  next
    case False
    then show ?thesis by (simp add: qas_loop_raises)
  qed
qed

lemma articles_loop_spec:
  "\<forall>a\<in>set as. \<forall>p\<in>set (paragraphs a). \<forall>q\<in>set (qas p). answers q \<noteq> [] \<Longrightarrow>
   articles_loop as (c, e) =
     Inr (c @ spec_surviving_articles as, e @ spec_reports_articles as)"
proof (induction as arbitrary: c e)
  case Nil
  then show ?case by (simp add: spec_surviving_articles_def spec_reports_articles_def)
next
  case (Cons a as)
  then have hd: "\<forall>p\<in>set (paragraphs a). \<forall>q\<in>set (qas p). answers q \<noteq> []"
    and tl: "\<forall>a\<in>set as. \<forall>p\<in>set (paragraphs a). \<forall>q\<in>set (qas p). answers q \<noteq> []"
    by simp_all
  show ?case
    by (simp add: paragraphs_loop_spec[OF hd] Cons.IH[OF tl] spec_surviving_articles_def
          spec_reports_articles_def spec_cleaned_article_def)
qed

lemma articles_loop_raises:
  "\<not> (\<forall>a\<in>set as. \<forall>p\<in>set (paragraphs a). \<forall>q\<in>set (qas p). answers q \<noteq> []) \<Longrightarrow>
   articles_loop as (c, e) = Inl IndexError"
proof (induction as arbitrary: c e)
  case Nil
  then show ?case by simp
next
  case (Cons a as)
  show ?case
  proof (cases "\<forall>p\<in>set (paragraphs a). \<forall>q\<in>set (qas p). answers q \<noteq> []")
    case True
    with Cons.prems
    have "\<not> (\<forall>a\<in>set as. \<forall>p\<in>set (paragraphs a). \<forall>q\<in>set (qas p). answers q \<noteq> [])"
      by simp
    then show ?thesis by (simp add: paragraphs_loop_spec[OF True] Cons.IH)
  next
    case False
    then show ?thesis by (simp add: paragraphs_loop_raises)
  qed
qed

lemma clean_squad_dataset_spec:
  "clean_squad_dataset d =
     (if every_qa_has_answer d
      then Inr (\<lparr>version = Some (case version d of None \<Rightarrow> py ''1.1'' | Some v \<Rightarrow> v),
                 data = spec_surviving_articles (data d)\<rparr>,
                spec_reports_articles (data d))
      else Inl IndexError)"
proof (cases "every_qa_has_answer d")
  case True
  then have "\<forall>a\<in>set (data d). \<forall>p\<in>set (paragraphs a). \<forall>q\<in>set (qas p). answers q \<noteq> []"
    by (simp add: every_qa_has_answer_def)
  from articles_loop_spec[OF this, of "[]" "[]"] True show ?thesis
    by (simp add: clean_squad_dataset_def)
next
  case False
  then have "\<not> (\<forall>a\<in>set (data d). \<forall>p\<in>set (paragraphs a). \<forall>q\<in>set (qas p). answers q \<noteq> [])"
    by (simp add: every_qa_has_answer_def)
  from articles_loop_raises[OF this, of "[]" "[]"] False show ?thesis
    by (simp add: clean_squad_dataset_def)
qed

lemma clean_squad_dataset_Inr:
  assumes "clean_squad_dataset d = Inr (c, errs)"
  shows "every_qa_has_answer d"
    and "data c = spec_surviving_articles (data d)"
    and "errs = spec_reports_articles (data d)"
    and "version c = Some (case version d of None \<Rightarrow> py ''1.1'' | Some v \<Rightarrow> v)"
  using assms by (auto simp: clean_squad_dataset_spec split: if_splits)

section \<open>Where cleaned pairs and reports come from, and how many there are\<close>

lemma cleaned_qa_origin:
  assumes "cart \<in> set (spec_surviving_articles as)" "cp \<in> set (paragraphs cart)"
    "cq \<in> set (qas cp)"
  shows "\<exists>art\<in>set as. \<exists>p\<in>set (paragraphs art). \<exists>q\<in>set (qas p).
           title cart = title art \<and> para_context cp = para_context p
           \<and> spec_admitted (para_context p) q \<and> cq = spec_cleaned_qa (para_context p) q"
proof -
  from assms(1) obtain art where art: "art \<in> set as" "cart = spec_cleaned_article art"
    by (auto simp: spec_surviving_articles_def)
  with assms(2) obtain p where p: "p \<in> set (paragraphs art)" "cp = spec_cleaned_para p"
    by (auto simp: spec_cleaned_article_def spec_surviving_paragraphs_def)
  with assms(3) obtain q where q: "q \<in> set (qas p)" "spec_admitted (para_context p) q"
    "cq = spec_cleaned_qa (para_context p) q"
    by (auto simp: spec_cleaned_para_def spec_surviving_qas_def)
  from art p q show ?thesis
    by (auto simp: spec_cleaned_article_def spec_cleaned_para_def)
qed

lemma report_origin:
  assumes "r \<in> set (spec_reports_articles as)"
  shows "\<exists>art\<in>set as. \<exists>p\<in>set (paragraphs art). \<exists>q\<in>set (qas p).
           \<not> spec_admitted (para_context p) q \<and> r \<in> set (spec_report (para_context p) q)"
  using assms
  by (auto simp: spec_reports_articles_def spec_reports_paragraphs_def spec_reports_qas_def)

lemma report_present:
  assumes "art \<in> set as" "p \<in> set (paragraphs art)" "q \<in> set (qas p)"
    "\<not> spec_admitted (para_context p) q" "r \<in> set (spec_report (para_context p) q)"
  shows "r \<in> set (spec_reports_articles as)"
  using assms
  by (auto simp: spec_reports_articles_def spec_reports_paragraphs_def spec_reports_qas_def)

lemma cleaned_qa_present:
  assumes "art \<in> set as" "p \<in> set (paragraphs art)" "q \<in> set (qas p)"
    "spec_admitted (para_context p) q"
  shows "spec_cleaned_article art \<in> set (spec_surviving_articles as)"
    and "spec_cleaned_para p \<in> set (paragraphs (spec_cleaned_article art))"
    and "spec_cleaned_qa (para_context p) q \<in> set (qas (spec_cleaned_para p))"
proof -
  show q: "spec_cleaned_qa (para_context p) q \<in> set (qas (spec_cleaned_para p))"
    using assms(3,4) by (auto simp: spec_cleaned_para_def spec_surviving_qas_def)
  then have "qas (spec_cleaned_para p) \<noteq> []" by auto
  then show p: "spec_cleaned_para p \<in> set (paragraphs (spec_cleaned_article art))"
    using assms(2) by (auto simp: spec_cleaned_article_def spec_surviving_paragraphs_def)
  then have "paragraphs (spec_cleaned_article art) \<noteq> []" by auto
  then show "spec_cleaned_article art \<in> set (spec_surviving_articles as)"
    using assms(1) by (auto simp: spec_surviving_articles_def)
qed

lemma list_emb_filter_map:
  "\<forall>x\<in>set xs. Q (f x) \<longrightarrow> R (f x) x \<Longrightarrow> list_emb R (filter Q (map f xs)) xs"
  by (induction xs) auto

lemma list_emb_map_filter:
  "\<forall>x\<in>set xs. Q x \<longrightarrow> R (f x) x \<Longrightarrow> list_emb R (map f (filter Q xs)) xs"
  by (induction xs) auto

lemma spec_admitted_facts:
  assumes "spec_admitted ctx q"
  shows "\<exists>a rest k. answers q = a # rest \<and> \<not> contains_english (question q)
           \<and> \<not> contains_english (answer_text a)
           \<and> find_answer_span ctx (answer_text a)
               = Some (int k, int k + int (length (answer_text a)))
           \<and> str_find ctx (answer_text a) = int k
           \<and> occurs_at ctx (answer_text a) k
           \<and> (\<forall>j. occurs_at ctx (answer_text a) j \<longrightarrow> k \<le> j)"
proof -
  from assms obtain a rest where a: "answers q = a # rest"
    and ne: "\<not> contains_english (question q)" "\<not> contains_english (answer_text a)"
    and f: "find_answer_span ctx (answer_text a) \<noteq> None"
    by (cases "answers q") (auto simp: spec_admitted_def)
  from f obtain s e where se: "find_answer_span ctx (answer_text a) = Some (s, e)" by auto
  from find_answer_span_Some[OF se] obtain k where k: "s = int k"
    "e = int k + int (length (answer_text a))" "occurs_at ctx (answer_text a) k"
    "\<forall>j<k. \<not> occurs_at ctx (answer_text a) j" by blast
  have "str_find ctx (answer_text a) = int k"
    using find_answer_span_fst[OF se] k(1) by simp
  moreover have "\<forall>j. occurs_at ctx (answer_text a) j \<longrightarrow> k \<le> j"
    using k(4) by (meson not_le_imp_less)
  ultimately show ?thesis using a ne se k by blast
qed

lemma length_spec_qas:
  "\<forall>q\<in>set qs. answers q \<noteq> [] \<Longrightarrow>
   length (spec_surviving_qas ctx qs) + length (spec_reports_qas ctx qs) = length qs"
proof (induction qs)
  case Nil
  then show ?case by (simp add: spec_surviving_qas_def spec_reports_qas_def)
next
  case (Cons q qs)
  then obtain a as where "answers q = a # as" by (cases "answers q") auto
  with Cons show ?case
    by (auto simp: spec_surviving_qas_def spec_reports_qas_def spec_report_def)
qed

lemma count_spec_paragraphs:
  "\<forall>p\<in>set ps. \<forall>q\<in>set (qas p). answers q \<noteq> [] \<Longrightarrow>
   sum_list (map (\<lambda>p. length (qas p)) (spec_surviving_paragraphs ps))
     + length (spec_reports_paragraphs ps)
   = sum_list (map (\<lambda>p. length (qas p)) ps)"
proof (induction ps)
  case Nil
  then show ?case by (simp add: spec_surviving_paragraphs_def spec_reports_paragraphs_def)
next
  case (Cons p ps)
  then have hd: "\<forall>q\<in>set (qas p). answers q \<noteq> []" by simp
  from Cons have IH: "sum_list (map (\<lambda>p. length (qas p)) (spec_surviving_paragraphs ps))
     + length (spec_reports_paragraphs ps) = sum_list (map (\<lambda>p. length (qas p)) ps)" by simp
  from length_spec_qas[OF hd, of "para_context p"] IH show ?case
    by (auto simp: spec_surviving_paragraphs_def spec_reports_paragraphs_def
          spec_cleaned_para_def)
qed

lemma count_spec_articles:
  "\<forall>a\<in>set as. \<forall>p\<in>set (paragraphs a). \<forall>q\<in>set (qas p). answers q \<noteq> [] \<Longrightarrow>
   sum_list (map (\<lambda>a. sum_list (map (\<lambda>p. length (qas p)) (paragraphs a)))
               (spec_surviving_articles as))
     + length (spec_reports_articles as)
   = sum_list (map (\<lambda>a. sum_list (map (\<lambda>p. length (qas p)) (paragraphs a))) as)"
proof (induction as)
  case Nil
  then show ?case by (simp add: spec_surviving_articles_def spec_reports_articles_def)
next
  case (Cons a as)
  then have hd: "\<forall>p\<in>set (paragraphs a). \<forall>q\<in>set (qas p). answers q \<noteq> []" by simp
  from Cons have IH: "sum_list (map (\<lambda>a. sum_list (map (\<lambda>p. length (qas p)) (paragraphs a)))
               (spec_surviving_articles as))
     + length (spec_reports_articles as)
   = sum_list (map (\<lambda>a. sum_list (map (\<lambda>p. length (qas p)) (paragraphs a))) as)" by simp
  from count_spec_paragraphs[OF hd] IH show ?case
    by (auto simp: spec_surviving_articles_def spec_reports_articles_def
          spec_cleaned_article_def)
qed

lemma sum_list_of_concat: "sum_list (concat xss) = sum_list (map sum_list (xss :: nat list list))"
  by (induction xss) auto

lemma total_qas_nested:
  "total_qas d = sum_list (map (\<lambda>a. sum_list (map (\<lambda>p. length (qas p)) (paragraphs a)))
                   (data d))"
  by (simp add: total_qas_def sum_list_of_concat comp_def)

section \<open>The sample run, evaluated\<close>

lemmas ex_defs = ex_data_def ex_p1_def ex_p2_def ex_p3_def ex_q1_def ex_q2_def ex_q3_def
  ex_q4_def ex_q5_def ex_a1_def ex_a2_def ex_a3_def ex_a4_def ex_a5_def ex_context_def
  ex_cleaned_def ex_cleaned_q1_def ex_errors_def ex_report_def

lemma ex_run: "clean_squad_dataset ex_data = Inr (ex_cleaned, ex_errors)"
  by (simp add: clean_squad_dataset_def ex_defs py_def contains_english_def latin_letter_def
        verify_and_correct_example_def find_answer_span_def str_find_def Let_def)

lemma ex_has_answers: "every_qa_has_answer ex_data"
  by (simp add: every_qa_has_answer_def ex_defs)

lemma py_messages_differ:
  "py ''Contains English characters'' \<noteq> py ''Answer text not found in context''"
  by (simp add: py_def)

section \<open>The claims\<close>

text \<open>
  C10. Whenever \<open>find_answer_span c a\<close> returns a pair \<open>(s, e)\<close>, the span is in bounds
  and round-trips: \<open>0 \<le> s\<close>, \<open>e = s + len(a)\<close>, \<open>e \<le> len(c)\<close>, and the slice \<open>c[s:e]\<close> is
  exactly \<open>a\<close>.
\<close>

theorem C10_span_round_trip:
  "find_answer_span c a = Some (s, e) \<Longrightarrow>
     0 \<le> s \<and> e = s + int (length a) \<and> e \<le> int (length c)
     \<and> take (nat e - nat s) (drop (nat s) c) = a"
proof -
  assume "find_answer_span c a = Some (s, e)"
  from find_answer_span_Some[OF this] obtain k where k: "s = int k" "e = int k + int (length a)"
    "occurs_at c a k" by blast
  from occurs_at_split[OF k(3)] obtain post where p: "c = take k c @ a @ post"
    and l: "length (take k c) = k" by blast
  have "length c = k + length a + length post"
    using arg_cong[OF p, of length] l by simp
  then have le: "e \<le> int (length c)" using k by simp
  have "drop k c = a @ post" using p l by (metis append_eq_conv_conj)
  then have "take (length a) (drop k c) = a" by simp
  moreover have "nat e - nat s = length a" using k by simp
  ultimately show ?thesis using k le by simp
qed

theorem C10_span_round_trip_witness:
  "find_answer_span ex_context [947, 948] = Some (2, 4)
   \<and> (0::int) \<le> 2 \<and> (4::int) = 2 + int (length [947::nat, 948])
   \<and> 4 \<le> int (length ex_context)
   \<and> take (nat 4 - nat 2) (drop (nat 2) ex_context) = [947, 948]"
proof -
  have h: "find_answer_span ex_context [947, 948] = Some (2, 4)"
    by (simp add: find_answer_span_def str_find_def ex_context_def)
  from C10_span_round_trip[OF h] h show ?thesis by blast
qed

text \<open>
  C3, as the code has it. \<open>str.find\<close> finds the empty string at index 0 of every context,
  so the span locator returns \<open>(0, 0)\<close> for an empty answer text; it is a valid match, and
  a QA pair with an empty answer text whose question has no Latin letter produces a
  cleaned record with \<open>answer_start = 0\<close> and no error report.
\<close>

theorem C3_empty_answer_matches:
  "find_answer_span c [] = Some (0, 0)
   \<and> (answers q = ans # rest \<and> answer_text ans = [] \<and> \<not> contains_english (question q) \<longrightarrow>
        clean_squad_dataset
          \<lparr>version = v,
           data = [\<lparr>title = t, paragraphs = [\<lparr>para_context = c, qas = [q]\<rparr>]\<rparr>]\<rparr>
        = Inr (\<lparr>version = Some (case v of None \<Rightarrow> py ''1.1'' | Some v' \<Rightarrow> v'),
                data =
                  [\<lparr>title = t,
                    paragraphs =
                      [\<lparr>para_context = c,
                        qas = [\<lparr>qa_id = qa_id q, question = question q,
                                answers = [\<lparr>answer_text = [], answer_start = Some 0\<rparr>]\<rparr>]\<rparr>]\<rparr>]\<rparr>,
               []))"
proof -
  have f: "find_from 0 c [] = 0" by (cases c) simp_all
  then have span: "find_answer_span c [] = Some (0, 0)"
    by (simp add: find_answer_span_def str_find_def)
  moreover have "\<not> contains_english []" by (simp add: contains_english_def)
  ultimately show ?thesis
    by (simp add: clean_squad_dataset_def verify_fields Let_def)
qed

theorem C3_empty_answer_matches_witness:
   "find_answer_span ex_context [] = Some (0, 0)
    \<and> clean_squad_dataset
          \<lparr>version = None,
           data = [\<lparr>title = [964], paragraphs = [\<lparr>para_context = ex_context,
              qas = [\<lparr>qa_id = [49], question = [963],
                answers = [\<lparr>answer_text = [], answer_start = Some 7\<rparr>]\<rparr>]\<rparr>]\<rparr>]\<rparr>
        = Inr (\<lparr>version = Some (py ''1.1''),
                data =
                  [\<lparr>title = [964],
                    paragraphs =
                      [\<lparr>para_context = ex_context,
                        qas = [\<lparr>qa_id = [49], question = [963],
                                answers = [\<lparr>answer_text = [], answer_start = Some 0\<rparr>]\<rparr>]\<rparr>]\<rparr>]\<rparr>,
               [])"
  using C3_empty_answer_matches[of ex_context
      "\<lparr>qa_id = [49], question = [963], answers = [\<lparr>answer_text = [], answer_start = Some 7\<rparr>]\<rparr>"
      "\<lparr>answer_text = [], answer_start = Some 7\<rparr>" "[]" None "[964]"]
  by (simp add: contains_english_def latin_letter_def)

text \<open>C3 as stated (an empty answer text gives \<open>None\<close>) fails on a concrete context.\<close>

theorem C3_counterexample:
  "find_answer_span (py ''The cat sat.'') [] \<noteq> None"
  by (simp add: find_answer_span_def str_find_def py_def)

text \<open>
  C4. The offsets of the span locator count characters (code points), not bytes: the
  start is the number of characters before the match and the end the number of
  characters up to its end; \<open>locate("\<alpha>\<beta>\<gamma>\<delta>\<epsilon>", "\<gamma>\<delta>")\<close> is \<open>(2, 4)\<close>.
\<close>

theorem C4_character_offsets:
  "(find_answer_span c a = Some (s, e) \<longrightarrow>
      (\<exists>pre post. c = pre @ a @ post \<and> s = int (length pre) \<and> e = int (length (pre @ a))))
   \<and> find_answer_span [945, 946, 947, 948, 949] [947, 948] = Some (2, 4)"
proof -
  have "\<exists>pre post. c = pre @ a @ post \<and> s = int (length pre) \<and> e = int (length (pre @ a))"
    if h: "find_answer_span c a = Some (s, e)"
  proof -
    from find_answer_span_Some[OF h] obtain k where k: "s = int k"
      "e = int k + int (length a)" "occurs_at c a k" by blast
    from occurs_at_split[OF k(3)] obtain post where "c = take k c @ a @ post"
      "length (take k c) = k" by blast
    with k show ?thesis by (intro exI[of _ "take k c"] exI[of _ post]) simp
  qed
  moreover have "find_answer_span [945, 946, 947, 948, 949] [947, 948] = Some (2, 4)"
    by (simp add: find_answer_span_def str_find_def)
  ultimately show ?thesis by blast
qed

theorem C4_character_offsets_witness:
  "find_answer_span [945, 946, 947, 948, 949] [947, 948] = Some (2, 4)
   \<and> (\<exists>pre post. [945, 946, 947, 948, 949] = pre @ [947, 948] @ post
         \<and> (2::int) = int (length pre) \<and> (4::int) = int (length (pre @ [947::nat, 948])))"
  using C4_character_offsets[of "[945, 946, 947, 948, 949]" "[947, 948]" 2 4] by blast

text \<open>
  C5. \<open>contains_english\<close> is true exactly when some character of the text is a Latin
  letter in a-z or A-Z; it is true on \<open>hello\<close> and false on the five hiragana of
  \<open>konnichiwa\<close>.
\<close>

theorem C5_contains_english:
  "(contains_english txt \<longleftrightarrow>
      (\<exists>c\<in>set txt. (of_char CHR ''a'' \<le> c \<and> c \<le> of_char CHR ''z'')
                    \<or> (of_char CHR ''A'' \<le> c \<and> c \<le> of_char CHR ''Z'')))
   \<and> contains_english (py ''hello'')
   \<and> \<not> contains_english [12371, 12435, 12395, 12385, 12399]"
proof -
  have "re_search latin_letter s \<noteq> None \<longleftrightarrow> (\<exists>c\<in>set s. latin_letter c)" for s
    by (induction s) auto
  then have "contains_english txt \<longleftrightarrow>
      (\<exists>c\<in>set txt. (of_char CHR ''a'' \<le> c \<and> c \<le> of_char CHR ''z'')
                    \<or> (of_char CHR ''A'' \<le> c \<and> c \<le> of_char CHR ''Z''))"
    by (simp add: contains_english_def latin_letter_def)
  moreover have "contains_english (py ''hello'')"
    by (simp add: contains_english_def py_def latin_letter_def)
  moreover have "\<not> contains_english [12371, 12435, 12395, 12385, 12399]"
    by (simp add: contains_english_def latin_letter_def)
  ultimately show ?thesis by blast
qed

text \<open>
  C1. When the answer text occurs in the context, the span locator returns
  \<open>(s, s + len(answer_text))\<close> with \<open>s\<close> the lowest index at which it occurs; every QA
  pair of the cleaned dataset carries exactly one answer whose \<open>answer_start\<close> is that
  lowest index in the context of its paragraph, and the corrected start that
  \<open>verify_and_correct_example\<close> computes does not depend on the \<open>answer_start\<close> of the
  input.
\<close>

theorem C1_corrected_start_is_first_occurrence:
  "(occurs_at c a i \<longrightarrow>
      (\<exists>s. find_answer_span c a = Some (int s, int s + int (length a))
           \<and> occurs_at c a s \<and> (\<forall>j. occurs_at c a j \<longrightarrow> s \<le> j)))
   \<and> (clean_squad_dataset d = Inr (cleaned, errs) \<longrightarrow>
        (\<forall>art\<in>set (data cleaned). \<forall>p\<in>set (paragraphs art). \<forall>q\<in>set (qas p).
           \<exists>t s. answers q = [\<lparr>answer_text = t, answer_start = Some (int s)\<rparr>]
                 \<and> find_answer_span (para_context p) t = Some (int s, int s + int (length t))
                 \<and> occurs_at (para_context p) t s
                 \<and> (\<forall>j. occurs_at (para_context p) t j \<longrightarrow> s \<le> j)))
   \<and> corrected_start (verify_and_correct_example c (ans\<lparr>answer_start := stale\<rparr>))
       = corrected_start (verify_and_correct_example c ans)"
proof (intro conjI impI ballI)
  assume occ: "occurs_at c a i"
  then have "find_answer_span c a \<noteq> None" by (auto simp: find_answer_span_None)
  then obtain s e where se: "find_answer_span c a = Some (s, e)" by auto
  from find_answer_span_Some[OF se] obtain k where k: "s = int k"
    "e = int k + int (length a)" "occurs_at c a k" "\<forall>j<k. \<not> occurs_at c a j" by blast
  have "\<forall>j. occurs_at c a j \<longrightarrow> k \<le> j" using k(4) by (meson not_le_imp_less)
  with se k show "\<exists>s. find_answer_span c a = Some (int s, int s + int (length a))
           \<and> occurs_at c a s \<and> (\<forall>j. occurs_at c a j \<longrightarrow> s \<le> j)" by blast
next
  fix art p q
  assume run: "clean_squad_dataset d = Inr (cleaned, errs)"
    and mem: "art \<in> set (data cleaned)" "p \<in> set (paragraphs art)" "q \<in> set (qas p)"
  from clean_squad_dataset_Inr(2)[OF run] mem(1)
  have "art \<in> set (spec_surviving_articles (data d))" by simp
  from cleaned_qa_origin[OF this mem(2,3)] obtain p0 :: para and q0 :: qa where
    o: "para_context p = para_context p0" "spec_admitted (para_context p0) q0"
       "q = spec_cleaned_qa (para_context p0) q0" by blast
  from spec_admitted_facts[OF o(2)] obtain a0 rest k where
    f: "answers q0 = a0 # rest"
       "find_answer_span (para_context p0) (answer_text a0)
          = Some (int k, int k + int (length (answer_text a0)))"
       "str_find (para_context p0) (answer_text a0) = int k"
       "occurs_at (para_context p0) (answer_text a0) k"
       "\<forall>j. occurs_at (para_context p0) (answer_text a0) j \<longrightarrow> k \<le> j" by blast
  have "answers q = [\<lparr>answer_text = answer_text a0, answer_start = Some (int k)\<rparr>]"
    using o(3) f(1,3) by (simp add: spec_cleaned_qa_def)
  with f o(1) show "\<exists>t s. answers q = [\<lparr>answer_text = t, answer_start = Some (int s)\<rparr>]
                 \<and> find_answer_span (para_context p) t = Some (int s, int s + int (length t))
                 \<and> occurs_at (para_context p) t s
                 \<and> (\<forall>j. occurs_at (para_context p) t j \<longrightarrow> s \<le> j)" by auto
next
  show "corrected_start (verify_and_correct_example c (ans\<lparr>answer_start := stale\<rparr>))
       = corrected_start (verify_and_correct_example c ans)"
    by (simp add: verify_fields)
qed

theorem C1_corrected_start_is_first_occurrence_witness:
  "occurs_at ex_context [947, 948] 5
   \<and> find_answer_span ex_context [947, 948] = Some (2, 4)
   \<and> clean_squad_dataset ex_data = Inr (ex_cleaned, ex_errors)
   \<and> (\<exists>t s. answers ex_cleaned_q1 = [\<lparr>answer_text = t, answer_start = Some (int s)\<rparr>]
         \<and> find_answer_span ex_context t = Some (int s, int s + int (length t))
         \<and> occurs_at ex_context t s
         \<and> (\<forall>j. occurs_at ex_context t j \<longrightarrow> s \<le> j))"
proof -
  have occ: "occurs_at ex_context [947, 948] 5"
    by (simp add: occurs_at_def ex_context_def)
  have span: "find_answer_span ex_context [947, 948] = Some (2, 4)"
    by (simp add: find_answer_span_def str_find_def ex_context_def)
  have m1: "\<lparr>title = py ''T1'',
             paragraphs = [\<lparr>para_context = ex_context, qas = [ex_cleaned_q1]\<rparr>]\<rparr>
            \<in> set (data ex_cleaned)" by (simp add: ex_cleaned_def)
  note inst = C1_corrected_start_is_first_occurrence
      [of ex_context "[947, 948]" 5 ex_data ex_cleaned ex_errors]
  from inst ex_run m1 have
    "\<forall>p\<in>set [\<lparr>para_context = ex_context, qas = [ex_cleaned_q1]\<rparr>]. \<forall>q\<in>set (qas p).
       \<exists>t s. answers q = [\<lparr>answer_text = t, answer_start = Some (int s)\<rparr>]
                 \<and> find_answer_span (para_context p) t = Some (int s, int s + int (length t))
                 \<and> occurs_at (para_context p) t s
                 \<and> (\<forall>j. occurs_at (para_context p) t j \<longrightarrow> s \<le> j)"
    by fastforce
  then have "\<exists>t s. answers ex_cleaned_q1 = [\<lparr>answer_text = t, answer_start = Some (int s)\<rparr>]
         \<and> find_answer_span ex_context t = Some (int s, int s + int (length t))
         \<and> occurs_at ex_context t s
         \<and> (\<forall>j. occurs_at ex_context t j \<longrightarrow> s \<le> j)" by simp
  with occ span ex_run show ?thesis by blast
qed

text \<open>
  C2. The span locator returns \<open>None\<close> exactly when the answer text is not a substring
  of the context. A QA pair that passes the script filter and whose first answer text
  does not occur in the context of its paragraph gets an error report
  \<open>Answer text not found in context\<close> with its id, question, context and original
  answer, and no cleaned paragraph with that context holds a QA pair with that answer
  text. In the loop, the step for such a pair appends that report to \<open>error_reports\<close> and
  leaves \<open>cleaned_qas\<close> as it is.
\<close>

theorem C2_not_found_is_reported:
  "(find_answer_span c a = None \<longleftrightarrow> \<not> sublist a c)
   \<and> (every_qa_has_answer d \<and> art \<in> set (data d) \<and> p \<in> set (paragraphs art)
        \<and> q \<in> set (qas p) \<and> answers q = ans # rest
        \<and> \<not> contains_english (question q) \<and> \<not> contains_english (answer_text ans)
        \<and> \<not> sublist (answer_text ans) (para_context p)
       \<longrightarrow> (\<exists>cleaned errs.
              clean_squad_dataset d = Inr (cleaned, errs)
              \<and> \<lparr>report_id = qa_id q, report_question = question q,
                  report_context = para_context p, report_answer = ans,
                  report_error = Some (py ''Answer text not found in context'')\<rparr> \<in> set errs
              \<and> (\<forall>cart\<in>set (data cleaned). \<forall>cp\<in>set (paragraphs cart).
                    para_context cp = para_context p \<longrightarrow>
                    (\<forall>cq\<in>set (qas cp). \<forall>ca\<in>set (answers cq).
                       answer_text ca \<noteq> answer_text ans))))
   \<and> (answers q = ans # rest
        \<and> \<not> contains_english (question q) \<and> \<not> contains_english (answer_text ans)
        \<and> \<not> sublist (answer_text ans) ctx
       \<longrightarrow> qas_loop ctx (q # qs) (cleaned_qas, error_reports)
             = qas_loop ctx qs
                 (cleaned_qas,
                  error_reports @
                    [\<lparr>report_id = qa_id q, report_question = question q,
                      report_context = ctx, report_answer = ans,
                      report_error = Some (py ''Answer text not found in context'')\<rparr>]))"
proof (intro conjI impI)
  show "find_answer_span c a = None \<longleftrightarrow> \<not> sublist a c"
    by (simp add: find_answer_span_None flip: occurs_at_sublist)
next
  assume h: "every_qa_has_answer d \<and> art \<in> set (data d) \<and> p \<in> set (paragraphs art)
        \<and> q \<in> set (qas p) \<and> answers q = ans # rest
        \<and> \<not> contains_english (question q) \<and> \<not> contains_english (answer_text ans)
        \<and> \<not> sublist (answer_text ans) (para_context p)"
  let ?cleaned = "\<lparr>version = Some (case version d of None \<Rightarrow> py ''1.1'' | Some v \<Rightarrow> v),
                   data = spec_surviving_articles (data d)\<rparr>"
  let ?errs = "spec_reports_articles (data d)"
  let ?r = "\<lparr>report_id = qa_id q, report_question = question q,
             report_context = para_context p, report_answer = ans,
             report_error = Some (py ''Answer text not found in context'')\<rparr>"
  from h have run: "clean_squad_dataset d = Inr (?cleaned, ?errs)"
    by (simp add: clean_squad_dataset_spec)
  from h have none: "find_answer_span (para_context p) (answer_text ans) = None"
    by (simp add: find_answer_span_None flip: occurs_at_sublist)
  with h have nadm: "\<not> spec_admitted (para_context p) q" by (simp add: spec_admitted_def)
  from h have "?r \<in> set (spec_report (para_context p) q)" by (simp add: spec_report_def)
  with h nadm have rep: "?r \<in> set ?errs" by (blast intro: report_present)
  have absent: "answer_text ca \<noteq> answer_text ans"
    if m: "cart \<in> set (data ?cleaned)" "cp \<in> set (paragraphs cart)"
      "para_context cp = para_context p" "cq \<in> set (qas cp)" "ca \<in> set (answers cq)"
    for cart cp cq ca
  proof -
    from m(1) have "cart \<in> set (spec_surviving_articles (data d))" by simp
    from cleaned_qa_origin[OF this m(2,4)] obtain p0 :: para and q0 :: qa where
      o: "para_context cp = para_context p0" "spec_admitted (para_context p0) q0"
         "cq = spec_cleaned_qa (para_context p0) q0" by blast
    from spec_admitted_facts[OF o(2)] obtain a0 rest0 k where
      f: "answers q0 = a0 # rest0" "occurs_at (para_context p0) (answer_text a0) k" by blast
    from o(3) f(1) m(5) have "answer_text ca = answer_text a0"
      by (simp add: spec_cleaned_qa_def)
    moreover from f(2) o(1) m(3) none have "answer_text a0 \<noteq> answer_text ans"
      by (auto simp: find_answer_span_None)
    ultimately show ?thesis by simp
  qed
  from run rep absent show "\<exists>cleaned errs.
              clean_squad_dataset d = Inr (cleaned, errs)
              \<and> ?r \<in> set errs
              \<and> (\<forall>cart\<in>set (data cleaned). \<forall>cp\<in>set (paragraphs cart).
                    para_context cp = para_context p \<longrightarrow>
                    (\<forall>cq\<in>set (qas cp). \<forall>ca\<in>set (answers cq).
                       answer_text ca \<noteq> answer_text ans))"
    by (intro exI[of _ ?cleaned] exI[of _ ?errs]) blast
next
  assume s: "answers q = ans # rest
        \<and> \<not> contains_english (question q) \<and> \<not> contains_english (answer_text ans)
        \<and> \<not> sublist (answer_text ans) ctx"
  then have "find_answer_span ctx (answer_text ans) = None"
    by (simp add: find_answer_span_None flip: occurs_at_sublist)
  with s show "qas_loop ctx (q # qs) (cleaned_qas, error_reports)
             = qas_loop ctx qs
                 (cleaned_qas,
                  error_reports @
                    [\<lparr>report_id = qa_id q, report_question = question q,
                      report_context = ctx, report_answer = ans,
                      report_error = Some (py ''Answer text not found in context'')\<rparr>])"
    by (simp add: verify_fields Let_def)
qed

theorem C2_not_found_is_reported_witness:
  "find_answer_span ex_context [950] = None
   \<and> \<not> sublist [950] ex_context
   \<and> every_qa_has_answer ex_data
   \<and> ex_q2 \<in> set (qas ex_p1)
   \<and> \<not> contains_english (question ex_q2) \<and> \<not> contains_english (answer_text ex_a2)
   \<and> (\<exists>cleaned errs.
         clean_squad_dataset ex_data = Inr (cleaned, errs)
         \<and> ex_report ex_q2 ex_a2 ex_context ''Answer text not found in context'' \<in> set errs
         \<and> (\<forall>cart\<in>set (data cleaned). \<forall>cp\<in>set (paragraphs cart).
               para_context cp = ex_context \<longrightarrow>
               (\<forall>cq\<in>set (qas cp). \<forall>ca\<in>set (answers cq). answer_text ca \<noteq> [950])))"
proof -
  have ns: "\<not> sublist [950] ex_context"
    by (simp add: ex_context_def sublist_Cons_right)
  have ne: "\<not> contains_english (question ex_q2)" "\<not> contains_english (answer_text ex_a2)"
    by (simp_all add: ex_q2_def ex_a2_def contains_english_def latin_letter_def)
  have mem: "\<lparr>title = py ''T1'', paragraphs = [ex_p1, ex_p2]\<rparr> \<in> set (data ex_data)"
    "ex_p1 \<in> set (paragraphs \<lparr>title = py ''T1'', paragraphs = [ex_p1, ex_p2]\<rparr>)"
    "ex_q2 \<in> set (qas ex_p1)" "answers ex_q2 = ex_a2 # []"
    by (simp_all add: ex_data_def ex_p1_def ex_q2_def)
  have ctx: "para_context ex_p1 = ex_context" "answer_text ex_a2 = [950]"
    by (simp_all add: ex_p1_def ex_a2_def)
  note inst = C2_not_found_is_reported
      [of ex_context "[950]" ex_data "\<lparr>title = py ''T1'', paragraphs = [ex_p1, ex_p2]\<rparr>"
          ex_p1 ex_q2 ex_a2 "[]"]
  from inst ns have "find_answer_span ex_context [950] = None" by blast
  moreover from inst ns ne mem ex_has_answers ctx
  have "\<exists>cleaned errs.
         clean_squad_dataset ex_data = Inr (cleaned, errs)
         \<and> ex_report ex_q2 ex_a2 ex_context ''Answer text not found in context'' \<in> set errs
         \<and> (\<forall>cart\<in>set (data cleaned). \<forall>cp\<in>set (paragraphs cart).
               para_context cp = ex_context \<longrightarrow>
               (\<forall>cq\<in>set (qas cp). \<forall>ca\<in>set (answers cq). answer_text ca \<noteq> [950]))"
    by (simp add: ex_report_def)
  ultimately show ?thesis using ns ne mem(3) ex_has_answers by blast
qed

text \<open>
  C6. A QA pair whose question or first answer text contains a Latin letter gets an
  error report \<open>Contains English characters\<close>; the validator's report for it is never
  emitted, whether or not the answer occurs in the context, and no QA pair of the
  cleaned dataset has its question together with its answer text. In the loop, the step
  for such a pair appends that report and leaves \<open>cleaned_qas\<close> as it is, whatever the
  context holds.
\<close>

theorem C6_script_filter_rejects:
  "(every_qa_has_answer d \<and> art \<in> set (data d) \<and> p \<in> set (paragraphs art)
     \<and> q \<in> set (qas p) \<and> answers q = ans # rest
     \<and> (contains_english (question q) \<or> contains_english (answer_text ans))
   \<longrightarrow> (\<exists>cleaned errs.
          clean_squad_dataset d = Inr (cleaned, errs)
          \<and> \<lparr>report_id = qa_id q, report_question = question q,
              report_context = para_context p, report_answer = ans,
              report_error = Some (py ''Contains English characters'')\<rparr> \<in> set errs
          \<and> \<lparr>report_id = qa_id q, report_question = question q,
              report_context = para_context p, report_answer = ans,
              report_error = Some (py ''Answer text not found in context'')\<rparr> \<notin> set errs
          \<and> (\<forall>cart\<in>set (data cleaned). \<forall>cp\<in>set (paragraphs cart).
                \<forall>cq\<in>set (qas cp).
                  \<not> (question cq = question q
                      \<and> map answer_text (answers cq) = [answer_text ans]))))
   \<and> (answers q = ans # rest
        \<and> (contains_english (question q) \<or> contains_english (answer_text ans))
       \<longrightarrow> qas_loop ctx (q # qs) (cleaned_qas, error_reports)
             = qas_loop ctx qs
                 (cleaned_qas,
                  error_reports @
                    [\<lparr>report_id = qa_id q, report_question = question q,
                      report_context = ctx, report_answer = ans,
                      report_error = Some (py ''Contains English characters'')\<rparr>]))"
proof (intro conjI impI)
  assume h: "every_qa_has_answer d \<and> art \<in> set (data d) \<and> p \<in> set (paragraphs art)
     \<and> q \<in> set (qas p) \<and> answers q = ans # rest
     \<and> (contains_english (question q) \<or> contains_english (answer_text ans))"
  let ?cleaned = "\<lparr>version = Some (case version d of None \<Rightarrow> py ''1.1'' | Some v \<Rightarrow> v),
                   data = spec_surviving_articles (data d)\<rparr>"
  let ?errs = "spec_reports_articles (data d)"
  let ?r = "\<lambda>msg. \<lparr>report_id = qa_id q, report_question = question q,
             report_context = para_context p, report_answer = ans,
             report_error = Some (py msg)\<rparr>"
  from h have eng: "contains_english (question q) \<or> contains_english (answer_text ans)"
    by blast
  from h have run: "clean_squad_dataset d = Inr (?cleaned, ?errs)"
    by (simp add: clean_squad_dataset_spec)
  from h have nadm: "\<not> spec_admitted (para_context p) q"
    by (auto simp: spec_admitted_def)
  from h have "?r ''Contains English characters'' \<in> set (spec_report (para_context p) q)"
    by (auto simp: spec_report_def)
  with h nadm have rep: "?r ''Contains English characters'' \<in> set ?errs"
    by (blast intro: report_present)
  have norep: "?r ''Answer text not found in context'' \<notin> set ?errs"
  proof
    assume "?r ''Answer text not found in context'' \<in> set ?errs"
    from report_origin[OF this] obtain p0 :: para and q0 :: qa where
      o: "?r ''Answer text not found in context'' \<in> set (spec_report (para_context p0) q0)"
      by blast
    then obtain a0 rest0 where a0: "answers q0 = a0 # rest0"
      by (cases "answers q0") (auto simp: spec_report_def)
    from o a0 have same: "question q0 = question q" "a0 = ans"
      by (auto simp: spec_report_def split: if_splits)
    with eng have "contains_english (question q0) \<or> contains_english (answer_text a0)"
      by simp
    with o a0 show False
      using py_messages_differ by (auto simp: spec_report_def)
  qed
  have absent: "\<not> (question cq = question q
                      \<and> map answer_text (answers cq) = [answer_text ans])"
    if m: "cart \<in> set (data ?cleaned)" "cp \<in> set (paragraphs cart)" "cq \<in> set (qas cp)"
    for cart cp cq
  proof -
    from m(1) have "cart \<in> set (spec_surviving_articles (data d))" by simp
    from cleaned_qa_origin[OF this m(2,3)] obtain p0 :: para and q0 :: qa where
      o: "spec_admitted (para_context p0) q0" "cq = spec_cleaned_qa (para_context p0) q0"
      by blast
    from spec_admitted_facts[OF o(1)] obtain a0 rest0 where
      f: "answers q0 = a0 # rest0" "\<not> contains_english (question q0)"
         "\<not> contains_english (answer_text a0)" by blast
    from o(2) f(1) have "question cq = question q0"
      "map answer_text (answers cq) = [answer_text a0]"
      by (simp_all add: spec_cleaned_qa_def)
    with f(2,3) eng show ?thesis by auto
  qed
  have "\<forall>cart\<in>set (data ?cleaned). \<forall>cp\<in>set (paragraphs cart).
                \<forall>cq\<in>set (qas cp).
                  \<not> (question cq = question q
                      \<and> map answer_text (answers cq) = [answer_text ans])"
    by (intro ballI) (rule absent)
  with run rep norep show "\<exists>cleaned errs.
          clean_squad_dataset d = Inr (cleaned, errs)
          \<and> ?r ''Contains English characters'' \<in> set errs
          \<and> ?r ''Answer text not found in context'' \<notin> set errs
          \<and> (\<forall>cart\<in>set (data cleaned). \<forall>cp\<in>set (paragraphs cart).
                \<forall>cq\<in>set (qas cp).
                  \<not> (question cq = question q
                      \<and> map answer_text (answers cq) = [answer_text ans]))"
    by (intro exI[of _ ?cleaned] exI[of _ ?errs] conjI)
next
  assume "answers q = ans # rest
        \<and> (contains_english (question q) \<or> contains_english (answer_text ans))"
  then show "qas_loop ctx (q # qs) (cleaned_qas, error_reports)
             = qas_loop ctx qs
                 (cleaned_qas,
                  error_reports @
                    [\<lparr>report_id = qa_id q, report_question = question q,
                      report_context = ctx, report_answer = ans,
                      report_error = Some (py ''Contains English characters'')\<rparr>])"
    by auto
qed

theorem C6_script_filter_rejects_witness:
  "every_qa_has_answer ex_data
   \<and> ex_q3 \<in> set (qas ex_p1)
   \<and> answers ex_q3 = [ex_a3]
   \<and> contains_english (question ex_q3)
   \<and> (\<exists>cleaned errs.
         clean_squad_dataset ex_data = Inr (cleaned, errs)
         \<and> ex_report ex_q3 ex_a3 ex_context ''Contains English characters'' \<in> set errs
         \<and> ex_report ex_q3 ex_a3 ex_context ''Answer text not found in context'' \<notin> set errs
         \<and> (\<forall>cart\<in>set (data cleaned). \<forall>cp\<in>set (paragraphs cart).
               \<forall>cq\<in>set (qas cp).
                 \<not> (question cq = question ex_q3
                     \<and> map answer_text (answers cq) = [answer_text ex_a3])))"
proof -
  have eng: "contains_english (question ex_q3)"
    by (simp add: ex_q3_def contains_english_def latin_letter_def py_def)
  have mem: "\<lparr>title = py ''T1'', paragraphs = [ex_p1, ex_p2]\<rparr> \<in> set (data ex_data)"
    "ex_p1 \<in> set (paragraphs \<lparr>title = py ''T1'', paragraphs = [ex_p1, ex_p2]\<rparr>)"
    "ex_q3 \<in> set (qas ex_p1)" "answers ex_q3 = [ex_a3]"
    by (simp_all add: ex_data_def ex_p1_def ex_q3_def)
  have ctx: "para_context ex_p1 = ex_context" by (simp add: ex_p1_def)
  note inst = C6_script_filter_rejects
      [of ex_data "\<lparr>title = py ''T1'', paragraphs = [ex_p1, ex_p2]\<rparr>"
          ex_p1 ex_q3 ex_a3 "[]"]
  from inst eng mem ex_has_answers ctx
  have "\<exists>cleaned errs.
         clean_squad_dataset ex_data = Inr (cleaned, errs)
         \<and> ex_report ex_q3 ex_a3 ex_context ''Contains English characters'' \<in> set errs
         \<and> ex_report ex_q3 ex_a3 ex_context ''Answer text not found in context'' \<notin> set errs
         \<and> (\<forall>cart\<in>set (data cleaned). \<forall>cp\<in>set (paragraphs cart).
               \<forall>cq\<in>set (qas cp).
                 \<not> (question cq = question ex_q3
                     \<and> map answer_text (answers cq) = [answer_text ex_a3]))"
    by (simp add: ex_report_def)
  with eng mem(3,4) ex_has_answers show ?thesis by blast
qed

text \<open>
  C7. The cleaned articles are the input articles with their paragraphs pruned, kept
  exactly when the pruned paragraph list is non-empty; a paragraph is kept, with the QA
  pairs that survive filter and validator (the list \<open>cleaned_qas\<close> that the inner loop
  builds for it), exactly when that list is non-empty. So no article of the cleaned
  dataset has an empty paragraph list and no paragraph of it an empty QA list.
\<close>

theorem C7_empty_containers_pruned:
  "clean_squad_dataset d = Inr (cleaned, errs) \<Longrightarrow>
   data cleaned =
     filter (\<lambda>a. paragraphs a \<noteq> [])
       (map (\<lambda>a. \<lparr>title = title a,
                   paragraphs =
                     filter (\<lambda>p. qas p \<noteq> [])
                       (map (\<lambda>p. \<lparr>para_context = para_context p,
                                   qas = spec_surviving_qas (para_context p) (qas p)\<rparr>)
                            (paragraphs a))\<rparr>)
            (data d))
   \<and> (\<forall>a\<in>set (data d). \<forall>p\<in>set (paragraphs a).
         \<exists>e. qas_loop (para_context p) (qas p) ([], [])
               = Inr (spec_surviving_qas (para_context p) (qas p), e))
   \<and> (\<forall>a\<in>set (data cleaned).
         paragraphs a \<noteq> [] \<and> (\<forall>p\<in>set (paragraphs a). qas p \<noteq> []))"
proof -
  assume run: "clean_squad_dataset d = Inr (cleaned, errs)"
  note r = clean_squad_dataset_Inr[OF run]
  have shape: "spec_surviving_articles as =
     filter (\<lambda>a. paragraphs a \<noteq> [])
       (map (\<lambda>a. \<lparr>title = title a,
                   paragraphs =
                     filter (\<lambda>p. qas p \<noteq> [])
                       (map (\<lambda>p. \<lparr>para_context = para_context p,
                                   qas = spec_surviving_qas (para_context p) (qas p)\<rparr>)
                            (paragraphs a))\<rparr>) as)" for as
    unfolding spec_surviving_articles_def spec_cleaned_article_def[abs_def]
      spec_surviving_paragraphs_def spec_cleaned_para_def[abs_def]
    by (rule refl)
  have loop: "\<exists>e. qas_loop (para_context p) (qas p) ([], [])
               = Inr (spec_surviving_qas (para_context p) (qas p), e)"
    if "a \<in> set (data d)" "p \<in> set (paragraphs a)" for a p
  proof -
    from r(1) that have "\<forall>q\<in>set (qas p). answers q \<noteq> []"
      by (auto simp: every_qa_has_answer_def)
    from qas_loop_spec[OF this, of "para_context p" "[]" "[]"] show ?thesis by simp
  qed
  have nonempty: "paragraphs a \<noteq> [] \<and> (\<forall>p\<in>set (paragraphs a). qas p \<noteq> [])"
    if "a \<in> set (data cleaned)" for a
    using that r(2)
    by (auto simp: spec_surviving_articles_def spec_cleaned_article_def
          spec_surviving_paragraphs_def)
  have "data cleaned =
     filter (\<lambda>a. paragraphs a \<noteq> [])
       (map (\<lambda>a. \<lparr>title = title a,
                   paragraphs =
                     filter (\<lambda>p. qas p \<noteq> [])
                       (map (\<lambda>p. \<lparr>para_context = para_context p,
                                   qas = spec_surviving_qas (para_context p) (qas p)\<rparr>)
                            (paragraphs a))\<rparr>)
            (data d))"
    by (simp only: r(2) shape)
  moreover have "\<forall>a\<in>set (data d). \<forall>p\<in>set (paragraphs a).
         \<exists>e. qas_loop (para_context p) (qas p) ([], [])
               = Inr (spec_surviving_qas (para_context p) (qas p), e)"
    by (intro ballI) (rule loop)
  moreover have "\<forall>a\<in>set (data cleaned).
         paragraphs a \<noteq> [] \<and> (\<forall>p\<in>set (paragraphs a). qas p \<noteq> [])"
    by (intro ballI) (rule nonempty)
  ultimately show ?thesis by (intro conjI)
qed

theorem C7_empty_containers_pruned_witness:
  "clean_squad_dataset ex_data = Inr (ex_cleaned, ex_errors)
   \<and> length (data ex_data) = 2 \<and> length (data ex_cleaned) = 1
   \<and> data ex_cleaned =
     filter (\<lambda>a. paragraphs a \<noteq> [])
       (map (\<lambda>a. \<lparr>title = title a,
                   paragraphs =
                     filter (\<lambda>p. qas p \<noteq> [])
                       (map (\<lambda>p. \<lparr>para_context = para_context p,
                                   qas = spec_surviving_qas (para_context p) (qas p)\<rparr>)
                            (paragraphs a))\<rparr>)
            (data ex_data))"
proof -
  have "length (data ex_data) = 2" "length (data ex_cleaned) = 1"
    by (simp_all add: ex_data_def ex_cleaned_def)
  with conjunct1[OF C7_empty_containers_pruned[OF ex_run]] ex_run show ?thesis
    by (intro conjI)
qed

text \<open>
  C8. When every QA pair has at least one answer, \<open>clean_squad_dataset\<close> returns, and the
  number of QA pairs of the cleaned dataset plus the number of error reports is the
  number of QA pairs of the input.
\<close>

theorem C8_every_pair_accounted_for:
  "every_qa_has_answer d \<Longrightarrow>
   \<exists>cleaned errs. clean_squad_dataset d = Inr (cleaned, errs)
      \<and> total_qas cleaned + length errs = total_qas d"
proof -
  assume h: "every_qa_has_answer d"
  then have all: "\<forall>a\<in>set (data d). \<forall>p\<in>set (paragraphs a). \<forall>q\<in>set (qas p).
      answers q \<noteq> []" by (simp add: every_qa_has_answer_def)
  let ?cleaned = "\<lparr>version = Some (case version d of None \<Rightarrow> py ''1.1'' | Some v \<Rightarrow> v),
                   data = spec_surviving_articles (data d)\<rparr>"
  let ?errs = "spec_reports_articles (data d)"
  from h have run: "clean_squad_dataset d = Inr (?cleaned, ?errs)"
    by (simp add: clean_squad_dataset_spec)
  from count_spec_articles[OF all]
  have "total_qas ?cleaned + length ?errs = total_qas d"
    by (simp add: total_qas_nested)
  with run show ?thesis by blast
qed

theorem C8_every_pair_accounted_for_witness:
  "every_qa_has_answer ex_data
   \<and> clean_squad_dataset ex_data = Inr (ex_cleaned, ex_errors)
   \<and> total_qas ex_cleaned + length ex_errors = total_qas ex_data
   \<and> total_qas ex_data = 5"
proof -
  from C8_every_pair_accounted_for[OF ex_has_answers] ex_run
  have "total_qas ex_cleaned + length ex_errors = total_qas ex_data" by simp
  moreover have "total_qas ex_data = 5"
    by (simp add: total_qas_def ex_data_def ex_p1_def ex_p2_def ex_p3_def)
  ultimately show ?thesis using ex_has_answers ex_run by blast
qed

text \<open>
  C9. The cleaned articles are, in order, cleaned versions of a subsequence of the input
  articles; within each of them the paragraphs are so of the article's paragraphs, and
  within each paragraph the QA pairs of the paragraph's QA pairs.
\<close>

theorem C9_order_preserved:
  "clean_squad_dataset d = Inr (cleaned, errs) \<Longrightarrow>
   list_emb article_kept (data cleaned) (data d)"
proof -
  assume run: "clean_squad_dataset d = Inr (cleaned, errs)"
  have qs: "list_emb qa_kept (spec_surviving_qas ctx qs) qs" for ctx qs
    unfolding spec_surviving_qas_def
  proof (rule list_emb_map_filter, intro ballI impI)
    fix q assume "spec_admitted ctx q"
    then obtain a rest where "answers q = a # rest"
      by (cases "answers q") (auto simp: spec_admitted_def)
    then show "qa_kept (spec_cleaned_qa ctx q) q"
      by (simp add: qa_kept_def spec_cleaned_qa_def)
  qed
  have ps: "list_emb para_kept (spec_surviving_paragraphs ps) ps" for ps
    unfolding spec_surviving_paragraphs_def
    by (rule list_emb_filter_map) (simp add: para_kept_def spec_cleaned_para_def qs)
  have "list_emb article_kept (spec_surviving_articles as) as" for as
    unfolding spec_surviving_articles_def
    by (rule list_emb_filter_map) (simp add: article_kept_def spec_cleaned_article_def ps)
  with clean_squad_dataset_Inr(2)[OF run] show ?thesis by simp
qed

theorem C9_order_preserved_witness:
  "clean_squad_dataset ex_data = Inr (ex_cleaned, ex_errors)
   \<and> list_emb article_kept (data ex_cleaned) (data ex_data)"
  using C9_order_preserved[OF ex_run] ex_run by simp

end
